theory Spec2Isabelle
  imports
    Main
    "HOL-Library.Word"
    "HOL-Library.Multiset"
    "HOL-Library.Sublist"
    "HOL-Library.Char_ord"
    "HOL-Library.List_Lexorder"
begin

unbundle bit_operations_syntax

section \<open>Data model of sdk/helper/storagepacker/ids2keys.go\<close>

text \<open>
  Go strings are byte sequences: \<open>len\<close> counts bytes, \<open>s[a:b]\<close> slices bytes and
  \<open><\<close> compares bytewise, a proper prefix being smaller. They are modelled by
  \<^typ>\<open>string\<close> with the lexicographic order of \<open>List_Lexorder\<close> over the byte order
  of \<open>Char_ord\<close>.
\<close>

text \<open>
  Modelled from the spec: the type \<open>Item\<close> is declared outside ids2keys.go. The spec
  describes it as a record identified by a string \<open>ID\<close> that carries a caller-defined
  payload, opaque to this code. A \<open>*Item\<close> is an \<open>Item option\<close>, \<open>None\<close> being nil.
\<close>

record Item =
  ID :: string
  Payload :: string

record itemRequest =
  ID :: string
  Key :: string
  Value :: "Item option"

text \<open>
  Modelled from the spec: the struct \<open>StoragePackerV2\<close> is declared outside
  ids2keys.go, which reads its field \<open>BaseBucketBits\<close> only. The field is a Go \<open>int\<close>
  (it is compared with \<open>len(cacheKey)\<close>), 64 bits wide on the platforms modelled here.
\<close>

record StoragePackerV2 =
  BaseBucketBits :: int

text \<open>
  The value built by \<open>errors.New\<close>, and the ways a call can end without returning: the
  run-time panics the code can raise, and the fatal error of a runtime that has run out
  of memory.
\<close>

datatype go_error = errorString string

datatype go_panic =
    NilPointerDereference
  | SliceBoundsOutOfRange
  | MakesliceCapOutOfRange
  | FatalOutOfMemory

text \<open>Go's integer division truncates toward zero.\<close>

definition go_div :: "int \<Rightarrow> int \<Rightarrow> int" where
  "go_div a b = sgn a * sgn b * (\<bar>a\<bar> div \<bar>b\<bar>)"

section \<open>GetItemIDHash\<close>

text \<open>
  \<open>hex.EncodeToString\<close> writes, for every byte \<open>v\<close>, \<open>hextable[v>>4]\<close> and then
  \<open>hextable[v&0x0f]\<close>.
\<close>

definition hextable :: string where
  "hextable = ''0123456789abcdef''"

fun hex_EncodeToString :: "8 word list \<Rightarrow> string" where
  "hex_EncodeToString [] = []"
| "hex_EncodeToString (v # src) =
     hextable ! unat (drop_bit 4 v) # hextable ! unat (v AND 0x0f) # hex_EncodeToString src"

text \<open>
  Modelled from the spec: \<open>cryptoutil.Blake2b256Hash\<close> is not part of ids2keys.go. The
  spec asks for a hash primitive from bytes to a digest; it is the parameter
  \<open>Blake2b256Hash\<close> of every function that hashes.
\<close>

definition GetItemIDHash :: "(string \<Rightarrow> 8 word list) \<Rightarrow> string \<Rightarrow> string" where
  "GetItemIDHash Blake2b256Hash itemID = hex_EncodeToString (Blake2b256Hash itemID)"

section \<open>keysForIDs and keysForItems\<close>

text \<open>
  Both loops append one request per element to \<open>requests\<close>, which starts empty.
  \<open>keysForItems\<close> reads \<open>i.ID\<close> through the pointer \<open>i\<close>: on a nil element Go panics.
  The new request's \<open>Value\<close> is the pointer \<open>i\<close> itself.
\<close>

fun keysForIDs_loop ::
  "(string \<Rightarrow> 8 word list) \<Rightarrow> itemRequest list \<Rightarrow> string list \<Rightarrow> itemRequest list" where
  "keysForIDs_loop h requests [] = requests"
| "keysForIDs_loop h requests (ident # ids) =
     keysForIDs_loop h
       (requests @ [\<lparr>itemRequest.ID = ident, Key = GetItemIDHash h ident, Value = None\<rparr>])
       ids"

definition keysForIDs :: "(string \<Rightarrow> 8 word list) \<Rightarrow> string list \<Rightarrow> itemRequest list" where
  "keysForIDs h ids = keysForIDs_loop h [] ids"

fun keysForItems_loop ::
  "(string \<Rightarrow> 8 word list) \<Rightarrow> itemRequest list \<Rightarrow> Item option list
    \<Rightarrow> go_panic + itemRequest list" where
  "keysForItems_loop h requests [] = Inr requests"
| "keysForItems_loop h requests (None # items) = Inl NilPointerDereference"
| "keysForItems_loop h requests (Some i # items) =
     keysForItems_loop h
       (requests @ [\<lparr>itemRequest.ID = Item.ID i, Key = GetItemIDHash h (Item.ID i),
                      Value = Some i\<rparr>]) items"

definition keysForItems ::
  "(string \<Rightarrow> 8 word list) \<Rightarrow> Item option list \<Rightarrow> go_panic + itemRequest list" where
  "keysForItems h items = keysForItems_loop h [] items"

section \<open>checkForDuplicateIds\<close>

text \<open>The map \<open>idsSeen\<close> is a partial function; the loop returns at the first id found in it.\<close>

fun checkForDuplicateIds_loop :: "(string \<rightharpoonup> bool) \<Rightarrow> string list \<Rightarrow> bool \<times> string" where
  "checkForDuplicateIds_loop idsSeen [] = (False, '''')"
| "checkForDuplicateIds_loop idsSeen (ident # ids) =
     (case idsSeen ident of
        Some found \<Rightarrow> (True, ident)
      | None \<Rightarrow> checkForDuplicateIds_loop (idsSeen(ident \<mapsto> True)) ids)"

definition checkForDuplicateIds :: "string list \<Rightarrow> bool \<times> string" where
  "checkForDuplicateIds ids = checkForDuplicateIds_loop Map.empty ids"

section \<open>sortRequests\<close>

subsection \<open>Slices over a store of arrays\<close>

text \<open>
  \<open>sortRequests\<close> copies its argument and sorts the copy in place, so the claim that the
  argument is left alone is a claim about aliasing. The store is the list of the arrays
  allocated so far, an array's address being its position; a slice is a window
  \<open>off ..< off + len\<close> of one array, with room up to \<open>off + cap\<close>. A \<open>*itemRequest\<close>
  is modelled by the request it points to: the requests come from \<open>keysForIDs\<close> and
  \<open>keysForItems\<close>, which store no nil pointer.
\<close>

type_synonym 'a store = "'a list list"

record slice =
  array :: nat
  off :: nat
  len :: nat
  cap :: nat

text \<open>
  A slice of capacity 0, the nil slice among them, reaches no element and needs no array.
\<close>

definition valid_slice :: "'a store \<Rightarrow> slice \<Rightarrow> bool" where
  "valid_slice st s \<longleftrightarrow>
     len s \<le> cap s \<and>
     (cap s = 0 \<or> array s < length st \<and> off s + cap s \<le> length (st ! array s))"

definition slice_elems :: "'a store \<Rightarrow> slice \<Rightarrow> 'a list" where
  "slice_elems st s = take (len s) (drop (off s) (st ! array s))"

text \<open>The composite literal \<open>[]*itemRequest{}\<close>: a new slice of length and capacity 0.\<close>

definition empty_literal :: "'a store \<Rightarrow> 'a store \<times> slice" where
  "empty_literal st = (st @ [[]], \<lparr>array = length st, off = 0, len = 0, cap = 0\<rparr>)"

text \<open>
  \<open>append(s, xs...)\<close> writes behind the slice when its capacity suffices, and otherwise
  copies the slice and \<open>xs\<close> into a new array. Go may give the new array spare capacity;
  nothing here appends to it again, so the model allocates exactly what is needed.
\<close>

definition append_slice :: "'a store \<Rightarrow> slice \<Rightarrow> 'a list \<Rightarrow> 'a store \<times> slice" where
  "append_slice st s xs =
     (if len s + length xs \<le> cap s then
        (st[array s :=
              (let a = st ! array s
               in take (off s + len s) a @ xs @ drop (off s + len s + length xs) a)],
         s\<lparr>len := len s + length xs\<rparr>)
      else
        (st @ [slice_elems st s @ xs],
         \<lparr>array = length st, off = 0, len = len s + length xs, cap = len s + length xs\<rparr>))"

subsection \<open>sort.Slice\<close>

text \<open>
  \<open>sort.Slice\<close> belongs to Go's standard library. Its documentation promises that it
  sorts the slice by the given \<open>less\<close> and states that the sort is not guaranteed to be
  stable. The routine is a parameter \<open>srt\<close> of the model: what it makes of the elements
  of the slice, given \<open>less\<close>. It works in place, inside the window of the slice.
\<close>

definition sort_Slice ::
  "(('a \<Rightarrow> 'a \<Rightarrow> bool) \<Rightarrow> 'a list \<Rightarrow> 'a list) \<Rightarrow> 'a store \<Rightarrow> slice \<Rightarrow> ('a \<Rightarrow> 'a \<Rightarrow> bool)
    \<Rightarrow> 'a store" where
  "sort_Slice srt st s lessf =
     st[array s :=
          (let a = st ! array s
           in take (off s) a @ srt lessf (slice_elems st s) @ drop (off s + len s) a)]"

text \<open>
  What the documentation of \<open>sort.Slice\<close> promises for one input: the result holds the
  same elements and no element is \<open>less\<close> than one before it.
\<close>

definition sorts :: "(('a \<Rightarrow> 'a \<Rightarrow> bool) \<Rightarrow> 'a list \<Rightarrow> 'a list) \<Rightarrow> ('a \<Rightarrow> 'a \<Rightarrow> bool) \<Rightarrow> 'a list \<Rightarrow> bool" where
  "sorts srt lessf xs \<longleftrightarrow>
     mset (srt lessf xs) = mset xs \<and> sorted_wrt (\<lambda>a b. \<not> lessf b a) (srt lessf xs)"

text \<open>
  The library's routine for short slices. Up to Go 1.18 \<open>sort.Slice\<close> calls
  \<open>quickSort_func(data, 0, length, maxDepth(length))\<close>, whose partitioning loop runs only
  while more than 12 elements remain; what is left is sorted by one pass of Shell sort
  with gap 6 followed by insertion sort:
  \<^verbatim>\<open>
  if b-a > 1 {
      for i := a + 6; i < b; i++ {
          if data.Less(i, i-6) { data.Swap(i, i-6) }
      }
      insertionSort_func(data, a, b)
  }
  func insertionSort_func(data lessSwap, a, b int) {
      for i := a + 1; i < b; i++ {
          for j := i; j > a && data.Less(j, j-1); j-- { data.Swap(j, j-1) }
      }
  }
  \<close>
  \<open>data.Less(i, j)\<close> is \<open>less\<close> on the elements now at \<open>i\<close> and \<open>j\<close>. On a slice of at
  most 12 elements \<open>shellInsertionSort\<close> is therefore all that \<open>sort.Slice\<close> does.
\<close>

definition Swap :: "nat \<Rightarrow> nat \<Rightarrow> 'a list \<Rightarrow> 'a list" where
  "Swap i j data = data[i := data ! j, j := data ! i]"

function insertionSort_inner :: "('a \<Rightarrow> 'a \<Rightarrow> bool) \<Rightarrow> nat \<Rightarrow> nat \<Rightarrow> 'a list \<Rightarrow> 'a list" where
  "insertionSort_inner lessf a j data =
     (if j > a \<and> lessf (data ! j) (data ! (j - 1))
      then insertionSort_inner lessf a (j - 1) (Swap j (j - 1) data)
      else data)"
  by pat_completeness auto
termination
  by (relation "measure (\<lambda>(lessf, a, j, data). j)") auto

declare insertionSort_inner.simps [simp del]

function insertionSort_outer ::
  "('a \<Rightarrow> 'a \<Rightarrow> bool) \<Rightarrow> nat \<Rightarrow> nat \<Rightarrow> nat \<Rightarrow> 'a list \<Rightarrow> 'a list" where
  "insertionSort_outer lessf a b i data =
     (if i < b
      then insertionSort_outer lessf a b (i + 1) (insertionSort_inner lessf a i data)
      else data)"
  by pat_completeness auto
termination
  by (relation "measure (\<lambda>(lessf, a, b, i, data). b - i)") auto

declare insertionSort_outer.simps [simp del]

definition insertionSort_func :: "('a \<Rightarrow> 'a \<Rightarrow> bool) \<Rightarrow> nat \<Rightarrow> nat \<Rightarrow> 'a list \<Rightarrow> 'a list" where
  "insertionSort_func lessf a b data = insertionSort_outer lessf a b (a + 1) data"

function shellPass :: "('a \<Rightarrow> 'a \<Rightarrow> bool) \<Rightarrow> nat \<Rightarrow> nat \<Rightarrow> 'a list \<Rightarrow> 'a list" where
  "shellPass lessf b i data =
     (if i < b
      then shellPass lessf b (i + 1)
             (if lessf (data ! i) (data ! (i - 6)) then Swap i (i - 6) data else data)
      else data)"
  by pat_completeness auto
termination
  by (relation "measure (\<lambda>(lessf, b, i, data). b - i)") auto

declare shellPass.simps [simp del]

definition shellInsertionSort :: "('a \<Rightarrow> 'a \<Rightarrow> bool) \<Rightarrow> 'a list \<Rightarrow> 'a list" where
  "shellInsertionSort lessf data =
     (let a = 0; b = length data
      in if b - a > 1 then insertionSort_func lessf a b (shellPass lessf b (a + 6) data)
         else data)"

subsection \<open>sortRequests\<close>

definition sortRequests ::
  "((itemRequest \<Rightarrow> itemRequest \<Rightarrow> bool) \<Rightarrow> itemRequest list \<Rightarrow> itemRequest list)
    \<Rightarrow> itemRequest store \<Rightarrow> slice \<Rightarrow> itemRequest store \<times> slice" where
  "sortRequests srt st requests =
     (let (st1, lit) = empty_literal st;
          (st2, duplicate) = append_slice st1 lit (slice_elems st1 requests);
          st3 = sort_Slice srt st2 duplicate (\<lambda>x y. Key x < Key y)
      in (st3, duplicate))"

section \<open>firstKey\<close>

text \<open>
  The function returns a pair of a string and an error, the error being nil on success.
  The slice expression \<open>cacheKey[0 : n]\<close> panics for a negative \<open>n\<close>.
\<close>

definition firstKey :: "StoragePackerV2 \<Rightarrow> string \<Rightarrow> go_panic + (string \<times> go_error option)" where
  "firstKey s cacheKey =
     (let rootShardLength = go_div (BaseBucketBits s) 4
      in if int (length cacheKey) < rootShardLength
         then Inr (cacheKey, Some (errorString ''Key too short.''))
         else if go_div (BaseBucketBits s) 4 < 0 then Inl SliceBoundsOutOfRange
         else Inr (take (nat (go_div (BaseBucketBits s) 4)) cacheKey, None))"

section \<open>getAllBaseBucketKeys\<close>

text \<open>
  \<open>int(math.Pow(2.0, float64(e)))\<close>: a power of two with an exponent from 0 to 62 is a
  float64 and an int, so the conversion is exact there. For a negative exponent the
  power lies between 0 and 1 and truncates to 0. From exponent 63 on the power (or
  \<open>+Inf\<close>) is outside the 64-bit \<open>int\<close>; Go leaves the result to the implementation, and
  the model takes amd64's, the smallest \<open>int\<close>.
\<close>

definition pow2_to_int :: "int \<Rightarrow> int" where
  "pow2_to_int e = (if e < 0 then 0 else if e \<le> 62 then 2 ^ nat e else - (2 ^ 63))"

text \<open>
  \<open>fmt.Sprintf(formatString, i)\<close> with \<open>formatString = "%0<wid>x"\<close>, for \<open>i \<ge> 0\<close>: the
  digits are written from the least significant one (\<open>u&0xF\<close>, then \<open>u >>= 4\<close>), and
  zeros fill up to the width. With \<open>wid = 0\<close> the format is \<open>"%00x"\<close>, both zeros are
  flags, and nothing is filled.
\<close>

definition ldigits :: string where
  "ldigits = ''0123456789abcdefx''"

function fmt_hex :: "nat \<Rightarrow> string" where
  "fmt_hex u = (if u \<ge> 16 then fmt_hex (u div 16) @ [ldigits ! (u mod 16)] else [ldigits ! u])"
  by pat_completeness auto
termination
  by (relation "measure (\<lambda>u. u)") auto

declare fmt_hex.simps [simp del]

definition Sprintf_0x :: "nat \<Rightarrow> nat \<Rightarrow> string" where
  "Sprintf_0x wid i = (let buf = fmt_hex i in replicate (wid - length buf) CHR ''0'' @ buf)"

function getAllBaseBucketKeys_loop :: "nat \<Rightarrow> nat \<Rightarrow> nat \<Rightarrow> string list \<Rightarrow> string list" where
  "getAllBaseBucketKeys_loop rootBucketLength numBuckets i ret =
     (if i < numBuckets
      then getAllBaseBucketKeys_loop rootBucketLength numBuckets (i + 1)
             (ret @ [Sprintf_0x rootBucketLength i])
      else ret)"
  by pat_completeness auto
termination
  by (relation "measure (\<lambda>(rootBucketLength, numBuckets, i, ret). numBuckets - i)") auto

declare getAllBaseBucketKeys_loop.simps [simp del]

text \<open>
  \<open>make([]string, 0, numBuckets)\<close> is the runtime's \<open>makeslice\<close>. It panics with
  \<open>cap out of range\<close> when the capacity is negative, and when the bytes asked for, 16
  for the header of each string, overflow or exceed \<open>maxAlloc\<close>, which is \<open>2^48\<close> on the
  64-bit platforms modelled here.
\<close>

definition maxAlloc :: nat where
  "maxAlloc = 2 ^ 48"

definition makeslice_panics :: "int \<Rightarrow> bool" where
  "makeslice_panics cap_wanted \<longleftrightarrow> cap_wanted < 0 \<or> maxAlloc < 16 * nat cap_wanted"

text \<open>
  Below that limit the machine decides. Its memory is the parameter \<open>room\<close>: the number
  of bucket keys, each with its place in the slice, that the runtime can still allocate.
  A call that needs more ends in the fatal error \<open>out of memory\<close>, in \<open>make\<close> or in
  one of the \<open>Sprintf\<close> calls, and returns nothing.
\<close>

definition getAllBaseBucketKeys :: "nat \<Rightarrow> StoragePackerV2 \<Rightarrow> go_panic + string list" where
  "getAllBaseBucketKeys room s =
     (let numBuckets = pow2_to_int (BaseBucketBits s);
          rootBucketLength = go_div (BaseBucketBits s) 4
      in if makeslice_panics numBuckets then Inl MakesliceCapOutOfRange
         else if room < nat numBuckets then Inl FatalOutOfMemory
         else Inr (getAllBaseBucketKeys_loop (nat rootBucketLength) (nat numBuckets) 0 []))"

text \<open>
  The number a string of hexadecimal digits denotes, used to state that the bucket keys
  count upward.
\<close>

definition hex_digit_value :: "char \<Rightarrow> nat" where
  "hex_digit_value c = length (takeWhile (\<lambda>d. d \<noteq> c) hextable)"

definition hex_value :: "string \<Rightarrow> nat" where
  "hex_value ds = foldl (\<lambda>acc c. 16 * acc + hex_digit_value c) 0 ds"

section \<open>GetCacheKey\<close>

text \<open>
  \<open>strings.Replace(s, old, new, n)\<close> replaces the first \<open>n\<close> non-overlapping instances of
  \<open>old\<close>, scanning from the left, and all of them when \<open>n < 0\<close>. The model covers a
  non-empty \<open>old\<close>, which is how \<open>GetCacheKey\<close> calls it (for an empty \<open>old\<close> Go inserts
  \<open>new\<close> around every UTF-8 sequence; the model then returns \<open>s\<close>).
\<close>

function strings_Replace :: "string \<Rightarrow> string \<Rightarrow> string \<Rightarrow> int \<Rightarrow> string" where
  "strings_Replace s old new n =
     (if s = [] \<or> old = [] \<or> n = 0 then s
      else if prefix old s
      then new @ strings_Replace (drop (length old) s) old new (n - 1)
      else hd s # strings_Replace (tl s) old new n)"
  by pat_completeness auto
termination
  by (relation "measure (\<lambda>(s, old, new, n). length s)") auto

declare strings_Replace.simps [simp del]

definition GetCacheKey :: "string \<Rightarrow> string" where
  "GetCacheKey key = strings_Replace key ''/'' '''' (- 1)"

section \<open>Notions used in the statements\<close>

text \<open>
  A sort is stable on an input when, for every key of the input, the requests with that
  key stand in the output in the order they had in the input.
\<close>

definition stable_by_Key :: "itemRequest list \<Rightarrow> itemRequest list \<Rightarrow> bool" where
  "stable_by_Key input output \<longleftrightarrow>
     list_all (\<lambda>k. filter (\<lambda>r. Key r = k) output = filter (\<lambda>r. Key r = k) input)
       (map Key input)"

text \<open>
  What one run of the inner loop of \<open>insertionSort_func\<close> does, seen from the element
  that moves: the sorted part before it is read from its end, and the element passes
  every element it is \<open>less\<close> than.
\<close>

fun insert_back :: "('a \<Rightarrow> 'a \<Rightarrow> bool) \<Rightarrow> 'a \<Rightarrow> 'a list \<Rightarrow> 'a list" where
  "insert_back lessf x [] = [x]"
| "insert_back lessf x (y # ys) =
     (if lessf x y then y # insert_back lessf x ys else x # y # ys)"

text \<open>The digits of a number at a fixed width, most significant first.\<close>

fun hexpad :: "nat \<Rightarrow> nat \<Rightarrow> string" where
  "hexpad 0 u = []"
| "hexpad (Suc w) u = hexpad w (u div 16) @ [ldigits ! (u mod 16)]"

section \<open>GetCacheKey removes every separator\<close>

lemma strings_Replace_remove_all:
  "n < 0 \<Longrightarrow> strings_Replace s [c] [] n = filter (\<lambda>d. d \<noteq> c) s"
proof (induction s arbitrary: n)
  case Nil
  show ?case by (subst strings_Replace.simps) simp
next
  case (Cons d s)
  have neg: "n - 1 < 0" using Cons.prems by simp
  show ?case
  proof (cases "d = c")
    case True
    then show ?thesis
      using Cons.prems Cons.IH [OF neg] by (subst strings_Replace.simps) simp
  next
    case False
    then show ?thesis
      using Cons.prems Cons.IH [OF Cons.prems] by (subst strings_Replace.simps) simp
  qed
qed

lemma GetCacheKey_filter: "GetCacheKey key = filter (\<lambda>d. d \<noteq> CHR ''/'') key"
  unfolding GetCacheKey_def by (rule strings_Replace_remove_all) simp

text \<open>
  C9. For every input string, the empty string and strings with leading, trailing or
  consecutive separators included, \<open>GetCacheKey\<close> returns the characters of the input in
  their order with every \<open>/\<close> left out; the result holds no \<open>/\<close>.
\<close>

theorem GetCacheKey_removes_every_separator:
  "GetCacheKey x = filter (\<lambda>c. c \<noteq> CHR ''/'') x \<and>
   CHR ''/'' \<notin> set (GetCacheKey x) \<and>
   GetCacheKey '''' = '''' \<and>
   GetCacheKey ''/a//b/'' = ''ab''"
  by (simp add: GetCacheKey_filter)

text \<open>
  C7. \<open>GetCacheKey\<close> is idempotent, and on a string without a separator it returns the
  string itself.
\<close>

theorem GetCacheKey_idempotent:
  "GetCacheKey (GetCacheKey x) = GetCacheKey x \<and>
   (CHR ''/'' \<notin> set x \<longrightarrow> GetCacheKey x = x)"
  by (auto simp: GetCacheKey_filter filter_id_conv)

text \<open>The separator-free string \<open>abcd\<close>, and the address \<open>ab/cd\<close> normalised twice.\<close>

theorem GetCacheKey_idempotent_witness:
  "GetCacheKey (GetCacheKey ''ab/cd'') = GetCacheKey ''ab/cd'' \<and>
   CHR ''/'' \<notin> set ''abcd'' \<and> GetCacheKey ''abcd'' = ''abcd''"
  using GetCacheKey_idempotent [of "''ab/cd''"] GetCacheKey_idempotent [of "''abcd''"]
  by simp

section \<open>firstKey\<close>

text \<open>
  C4. \<open>firstKey\<close> returns an error, the error \<open>Key too short.\<close>, exactly when the key
  has fewer than \<open>BaseBucketBits / 4\<close> characters. When the key has at least that many
  characters, \<open>firstKey\<close> returns without an error the first \<open>BaseBucketBits / 4\<close>
  characters of the key, a string of exactly that length. A number of characters is not
  negative: the second part is about configurations with \<open>0 \<le> BaseBucketBits / 4\<close>,
  which the positive multiples of 4 the spec asks for are (below that the slice
  expression panics).
\<close>

theorem firstKey_error_iff_short:
  "((\<exists>r e. firstKey s k = Inr (r, Some e)) \<longleftrightarrow>
      int (length k) < go_div (BaseBucketBits s) 4) \<and>
   ((\<exists>r. firstKey s k = Inr (r, Some (errorString ''Key too short.''))) \<longleftrightarrow>
      int (length k) < go_div (BaseBucketBits s) 4) \<and>
   (0 \<le> go_div (BaseBucketBits s) 4 \<and> go_div (BaseBucketBits s) 4 \<le> int (length k) \<longrightarrow>
      firstKey s k = Inr (take (nat (go_div (BaseBucketBits s) 4)) k, None) \<and>
      int (length (take (nat (go_div (BaseBucketBits s) 4)) k)) = go_div (BaseBucketBits s) 4)"
  by (auto simp: firstKey_def Let_def)

text \<open>With 8 bits the root bucket of \<open>c0ffee\<close> is \<open>c0\<close>, and the key \<open>a\<close> is too short.\<close>

theorem firstKey_error_iff_short_witness:
  "int (length ''a'') < go_div (BaseBucketBits \<lparr>BaseBucketBits = 8\<rparr>) 4 \<and>
   firstKey \<lparr>BaseBucketBits = 8\<rparr> ''a'' = Inr (''a'', Some (errorString ''Key too short.'')) \<and>
   0 \<le> go_div (BaseBucketBits \<lparr>BaseBucketBits = 8\<rparr>) 4 \<and>
   go_div (BaseBucketBits \<lparr>BaseBucketBits = 8\<rparr>) 4 \<le> int (length ''c0ffee'') \<and>
   firstKey \<lparr>BaseBucketBits = 8\<rparr> ''c0ffee'' = Inr (''c0'', None)"
  using firstKey_error_iff_short [of "\<lparr>BaseBucketBits = 8\<rparr>" "''a''"]
    firstKey_error_iff_short [of "\<lparr>BaseBucketBits = 8\<rparr>" "''c0ffee''"]
  by (simp add: go_div_def firstKey_def)

text \<open>
  C10. When \<open>firstKey\<close> fails because the key has fewer than \<open>BaseBucketBits / 4\<close>
  characters, the string it returns beside the error is the whole key as it was given,
  neither empty nor cut.
\<close>

theorem firstKey_short_returns_whole_key:
  "int (length k) < go_div (BaseBucketBits s) 4 \<Longrightarrow>
     firstKey s k = Inr (k, Some (errorString ''Key too short.''))"
  by (simp add: firstKey_def Let_def)

text \<open>With 16 bits the three characters \<open>abc\<close> come back whole.\<close>

theorem firstKey_short_returns_whole_key_witness:
  "int (length ''abc'') < go_div (BaseBucketBits \<lparr>BaseBucketBits = 16\<rparr>) 4 \<and>
   firstKey \<lparr>BaseBucketBits = 16\<rparr> ''abc'' = Inr (''abc'', Some (errorString ''Key too short.''))"
  using firstKey_short_returns_whole_key [of "''abc''" "\<lparr>BaseBucketBits = 16\<rparr>"]
  by (simp add: go_div_def)

section \<open>checkForDuplicateIds\<close>

lemma checkForDuplicateIds_loop_distinct:
  "distinct ids \<Longrightarrow> set ids \<inter> dom idsSeen = {} \<Longrightarrow>
     checkForDuplicateIds_loop idsSeen ids = (False, '''')"
proof (induction ids arbitrary: idsSeen)
  case Nil
  show ?case by simp
next
  case (Cons x ids)
  have "idsSeen x = None" using Cons.prems(2) by auto
  moreover have "checkForDuplicateIds_loop (idsSeen(x \<mapsto> True)) ids = (False, '''')"
  proof (rule Cons.IH)
    show "distinct ids" using Cons.prems(1) by simp
    have "x \<notin> set ids" using Cons.prems(1) by simp
    then show "set ids \<inter> dom (idsSeen(x \<mapsto> True)) = {}"
      using Cons.prems(2) by auto
  qed
  ultimately show ?case by simp
qed

lemma checkForDuplicateIds_loop_repeat:
  "\<not> (distinct ids \<and> set ids \<inter> dom idsSeen = {}) \<Longrightarrow>
     \<exists>j<length ids. checkForDuplicateIds_loop idsSeen ids = (True, ids ! j) \<and>
        ids ! j \<in> dom idsSeen \<union> set (take j ids) \<and>
        distinct (take j ids) \<and> set (take j ids) \<inter> dom idsSeen = {}"
proof (induction ids arbitrary: idsSeen)
  case Nil
  then show ?case by simp
next
  case (Cons x ids)
  show ?case
  proof (cases "idsSeen x")
    case (Some found)
    then have "checkForDuplicateIds_loop idsSeen (x # ids) = (True, (x # ids) ! 0)"
      by simp
    moreover have "(x # ids) ! 0 \<in> dom idsSeen \<union> set (take 0 (x # ids))"
      using Some by auto
    ultimately show ?thesis by (intro exI [of _ 0]) simp
  next
    case None
    let ?seen = "idsSeen(x \<mapsto> True)"
    have "\<not> (distinct ids \<and> set ids \<inter> dom ?seen = {})"
      using Cons.prems None by auto
    from Cons.IH [OF this] obtain j where j: "j < length ids"
      "checkForDuplicateIds_loop ?seen ids = (True, ids ! j)"
      "ids ! j \<in> dom ?seen \<union> set (take j ids)"
      "distinct (take j ids)" "set (take j ids) \<inter> dom ?seen = {}"
      by blast
    have "checkForDuplicateIds_loop idsSeen (x # ids) = (True, (x # ids) ! Suc j)"
      using None j(2) by simp
    moreover have "(x # ids) ! Suc j \<in> dom idsSeen \<union> set (take (Suc j) (x # ids))"
      using j(3) by auto
    moreover have "distinct (take (Suc j) (x # ids))"
      using j(4,5) by auto
    moreover have "set (take (Suc j) (x # ids)) \<inter> dom idsSeen = {}"
      using j(5) None by auto
    ultimately show ?thesis using j(1) by (intro exI [of _ "Suc j"]) simp
  qed
qed

text \<open>
  C5. On distinct ids \<open>checkForDuplicateIds\<close> returns \<open>(false, "")\<close>. Otherwise it
  returns \<open>true\<close> with the first id, in the order of the input, that repeats an earlier
  one: the id at the first position \<open>j\<close> whose id stands already before \<open>j\<close>, the ids
  before \<open>j\<close> being distinct. On \<open>["a","b","a"]\<close> that is \<open>(true, "a")\<close>, and
  \<open>["a","b","c"]\<close> gives \<open>(false, "")\<close>.
\<close>

theorem checkForDuplicateIds_first_repeat:
  "(distinct ids \<longrightarrow> checkForDuplicateIds ids = (False, '''')) \<and>
   (\<not> distinct ids \<longrightarrow>
      (\<exists>j<length ids. checkForDuplicateIds ids = (True, ids ! j) \<and>
         ids ! j \<in> set (take j ids) \<and> distinct (take j ids))) \<and>
   checkForDuplicateIds [''a'', ''b'', ''a''] = (True, ''a'') \<and>
   checkForDuplicateIds [''a'', ''b'', ''c''] = (False, '''')"
proof (intro conjI impI)
  assume "distinct ids"
  then show "checkForDuplicateIds ids = (False, '''')"
    unfolding checkForDuplicateIds_def by (intro checkForDuplicateIds_loop_distinct) simp_all
next
  assume "\<not> distinct ids"
  then have "\<not> (distinct ids \<and> set ids \<inter> dom (Map.empty :: string \<rightharpoonup> bool) = {})" by simp
  from checkForDuplicateIds_loop_repeat [OF this]
  show "\<exists>j<length ids. checkForDuplicateIds ids = (True, ids ! j) \<and>
         ids ! j \<in> set (take j ids) \<and> distinct (take j ids)"
    unfolding checkForDuplicateIds_def by auto
next
  show "checkForDuplicateIds [''a'', ''b'', ''a''] = (True, ''a'')"
    by (simp add: checkForDuplicateIds_def)
next
  show "checkForDuplicateIds [''a'', ''b'', ''c''] = (False, '''')"
    by (simp add: checkForDuplicateIds_def)
qed

text \<open>
  In \<open>["a","b","b","a"]\<close> the first id that repeats is \<open>b\<close>, at position 2; the ids
  \<open>["x","y"]\<close> are distinct.
\<close>

theorem checkForDuplicateIds_first_repeat_witness:
  "\<not> distinct [''a'', ''b'', ''b'', ''a''] \<and>
   checkForDuplicateIds [''a'', ''b'', ''b'', ''a''] = (True, ''b'') \<and>
   distinct [''x'', ''y''] \<and> checkForDuplicateIds [''x'', ''y''] = (False, '''')"
  using checkForDuplicateIds_first_repeat [of "[''x'', ''y'']"]
    checkForDuplicateIds_first_repeat [of "[''a'', ''b'', ''b'', ''a'']"]
  by (simp add: checkForDuplicateIds_def)

section \<open>keysForIDs and keysForItems keep the caller's order\<close>

lemma keysForIDs_loop_append:
  "keysForIDs_loop h requests ids =
     requests @ map (\<lambda>x. \<lparr>itemRequest.ID = x, Key = GetItemIDHash h x, Value = None\<rparr>) ids"
  by (induction ids arbitrary: requests) simp_all

lemma keysForItems_loop_append:
  "None \<notin> set items \<Longrightarrow>
     keysForItems_loop h requests items =
       Inr (requests @ map (\<lambda>p. \<lparr>itemRequest.ID = Item.ID (the p),
                                    Key = GetItemIDHash h (Item.ID (the p)), Value = p\<rparr>) items)"
proof (induction items arbitrary: requests)
  case Nil
  show ?case by simp
next
  case (Cons p items)
  then obtain i where "p = Some i" by (cases p) auto
  then show ?case using Cons by simp
qed

text \<open>
  C6. \<open>keysForIDs\<close> returns as many requests as it was given ids, and the request at
  position \<open>n\<close> has the id at position \<open>n\<close>, the hash of that id as its key and no
  value. \<open>keysForItems\<close>, given items (none of the pointers nil), returns as many requests
  as items, and the request at position \<open>n\<close> has the id of the item at position \<open>n\<close>,
  the hash of that id as its key and that item as its value.
\<close>

theorem keysFor_preserve_order:
  "length (keysForIDs h ids) = length ids \<and>
   (\<forall>n<length ids. keysForIDs h ids ! n =
      \<lparr>itemRequest.ID = ids ! n, Key = GetItemIDHash h (ids ! n), Value = None\<rparr>) \<and>
   (None \<notin> set items \<longrightarrow>
      (\<exists>requests. keysForItems h items = Inr requests \<and> length requests = length items \<and>
         (\<forall>n<length items. requests ! n =
            \<lparr>itemRequest.ID = Item.ID (the (items ! n)),
             Key = GetItemIDHash h (Item.ID (the (items ! n))), Value = items ! n\<rparr>)))"
  by (simp add: keysForIDs_def keysForItems_def keysForIDs_loop_append keysForItems_loop_append)

text \<open>
  Two ids and two items given in the order \<open>b\<close>, \<open>a\<close>, with a digest that returns the
  bytes of the id.
\<close>

theorem keysFor_preserve_order_witness:
  "keysForIDs (map of_char) [''b'', ''a''] =
     [\<lparr>itemRequest.ID = ''b'', Key = ''62'', Value = None\<rparr>,
      \<lparr>itemRequest.ID = ''a'', Key = ''61'', Value = None\<rparr>] \<and>
   None \<notin> set [Some \<lparr>Item.ID = ''b'', Payload = ''x''\<rparr>, Some \<lparr>Item.ID = ''a'', Payload = ''y''\<rparr>] \<and>
   keysForItems (map of_char)
       [Some \<lparr>Item.ID = ''b'', Payload = ''x''\<rparr>, Some \<lparr>Item.ID = ''a'', Payload = ''y''\<rparr>] =
     Inr [\<lparr>itemRequest.ID = ''b'', Key = ''62'', Value = Some \<lparr>Item.ID = ''b'', Payload = ''x''\<rparr>\<rparr>,
          \<lparr>itemRequest.ID = ''a'', Key = ''61'', Value = Some \<lparr>Item.ID = ''a'', Payload = ''y''\<rparr>\<rparr>]"
  using keysFor_preserve_order [of "map of_char" "[''b'', ''a'']"
      "[Some \<lparr>Item.ID = ''b'', Payload = ''x''\<rparr>, Some \<lparr>Item.ID = ''a'', Payload = ''y''\<rparr>]"]
  by (simp add: keysForIDs_def keysForItems_def GetItemIDHash_def hextable_def)

lemma keysForItems_loop_nil:
  "None \<in> set items \<Longrightarrow> keysForItems_loop h requests items = Inl NilPointerDereference"
proof (induction items arbitrary: requests)
  case Nil
  then show ?case by simp
next
  case (Cons p items)
  then show ?case by (cases p) auto
qed

text \<open>
  \<open>keysForItems\<close> panics exactly when one of the pointers it is given is nil.
\<close>

theorem keysForItems_nil_panics:
  "keysForItems h items = Inl NilPointerDereference \<longleftrightarrow> None \<in> set items"
proof (cases "None \<in> set items")
  case True
  then show ?thesis by (simp add: keysForItems_def keysForItems_loop_nil)
next
  case False
  then show ?thesis by (simp add: keysForItems_def keysForItems_loop_append)
qed

section \<open>sortRequests\<close>

subsection \<open>What the three steps of sortRequests leave in the store\<close>

lemma slice_elems_append_store:
  "valid_slice st s \<Longrightarrow> slice_elems (st @ ys) s = slice_elems st s"
  by (auto simp: valid_slice_def slice_elems_def nth_append)

lemma sort_Slice_fresh:
  "sort_Slice srt (st @ [a, xs])
       \<lparr>array = Suc (length st), off = 0, len = length xs, cap = c\<rparr> lessf
     = st @ [a, srt lessf xs]"
  by (simp add: sort_Slice_def slice_elems_def nth_append list_update_append)

lemma slice_elems_fresh:
  "length xs = n \<Longrightarrow>
     slice_elems (st @ [a, xs]) \<lparr>array = Suc (length st), off = 0, len = n, cap = c\<rparr> = xs"
  by (simp add: slice_elems_def nth_append)

lemma sortRequests_empty:
  assumes "valid_slice st requests" and "slice_elems st requests = []"
  shows "sortRequests srt st requests =
           (st @ [srt (\<lambda>x y. Key x < Key y) []],
            \<lparr>array = length st, off = 0, len = 0, cap = 0\<rparr>)"
  using assms
  by (simp add: sortRequests_def empty_literal_def append_slice_def sort_Slice_def
      slice_elems_append_store) (simp add: slice_elems_def)

lemma sortRequests_nonempty:
  assumes "valid_slice st requests" and "slice_elems st requests \<noteq> []"
  shows "sortRequests srt st requests =
           (st @ [[], srt (\<lambda>x y. Key x < Key y) (slice_elems st requests)],
            \<lparr>array = Suc (length st), off = 0, len = length (slice_elems st requests),
             cap = length (slice_elems st requests)\<rparr>)"
proof -
  have lit: "slice_elems (st @ [[]]) \<lparr>array = length st, off = 0, len = 0, cap = 0\<rparr> = []"
    by (simp add: slice_elems_def)
  show ?thesis
    using assms
    by (simp add: sortRequests_def empty_literal_def append_slice_def
        slice_elems_append_store lit sort_Slice_fresh)
qed

lemma sorts_length: "sorts srt lessf xs \<Longrightarrow> length (srt lessf xs) = length xs"
  unfolding sorts_def by (metis size_mset)

lemma sorts_Nil: "sorts srt lessf [] \<Longrightarrow> srt lessf [] = []"
  unfolding sorts_def by simp

lemma sortRequests_result:
  assumes "valid_slice st requests"
    and "sorts srt (\<lambda>x y. Key x < Key y) (slice_elems st requests)"
  obtains st' duplicate where "sortRequests srt st requests = (st', duplicate)"
    and "slice_elems st' duplicate = srt (\<lambda>x y. Key x < Key y) (slice_elems st requests)"
    and "take (length st) st' = st" and "length st \<le> array duplicate"
proof (cases "slice_elems st requests = []")
  case True
  note a = assms(1)
  have nil: "srt (\<lambda>x y. Key x < Key y) [] = []"
    using assms(2) True by (simp add: sorts_Nil)
  show ?thesis
  proof (rule that)
    show "sortRequests srt st requests =
        (st @ [[]], \<lparr>array = length st, off = 0, len = 0, cap = 0\<rparr>)"
      using sortRequests_empty [OF a True, of srt] nil by simp
    show "slice_elems (st @ [[]]) \<lparr>array = length st, off = 0, len = 0, cap = 0\<rparr> =
        srt (\<lambda>x y. Key x < Key y) (slice_elems st requests)"
      unfolding True nil by (simp add: slice_elems_def)
  qed simp_all
next
  case False
  note a = assms(1)
  define xs where "xs = slice_elems st requests"
  have len: "length (srt (\<lambda>x y. Key x < Key y) xs) = length xs"
    using assms(2) unfolding xs_def by (rule sorts_length)
  show ?thesis
  proof (rule that)
    show "sortRequests srt st requests =
           (st @ [[], srt (\<lambda>x y. Key x < Key y) xs],
            \<lparr>array = Suc (length st), off = 0, len = length xs, cap = length xs\<rparr>)"
      unfolding xs_def by (rule sortRequests_nonempty [OF a False])
    show "slice_elems (st @ [[], srt (\<lambda>x y. Key x < Key y) xs])
            \<lparr>array = Suc (length st), off = 0, len = length xs, cap = length xs\<rparr> =
          srt (\<lambda>x y. Key x < Key y) (slice_elems st requests)"
      unfolding xs_def [symmetric] by (rule slice_elems_fresh [OF len])
  qed simp_all
qed

lemma Key_sorted:
  "sorted_wrt (\<lambda>a b. \<not> Key b < Key a) xs \<Longrightarrow> sorted_wrt (\<lambda>x y. Key x \<le> Key y) xs"
  by (erule sorted_wrt_mono_rel [rotated]) simp

lemma sorted_by_key_runs:
  fixes f :: "'a \<Rightarrow> 'k::linorder"
  shows "sorted_wrt (\<lambda>x y. f x \<le> f y) xs \<Longrightarrow>
     xs = filter (\<lambda>x. f x < k) xs @ filter (\<lambda>x. f x = k) xs @ filter (\<lambda>x. k < f x) xs"
proof (induction xs)
  case Nil
  show ?case by simp
next
  case (Cons a xs)
  then have IH: "xs = filter (\<lambda>x. f x < k) xs @ filter (\<lambda>x. f x = k) xs @ filter (\<lambda>x. k < f x) xs"
    and le: "\<forall>x\<in>set xs. f a \<le> f x"
    by simp_all
  consider "f a < k" | "f a = k" | "k < f a" by (rule linorder_cases)
  then show ?case
  proof cases
    case 1
    then have "f a \<noteq> k" "\<not> k < f a" by simp_all
    then show ?thesis using 1 IH [symmetric] by simp
  next
    case 2
    then have "filter (\<lambda>x. f x < k) xs = []" using le by (auto simp: filter_empty_conv)
    then show ?thesis using 2 IH [symmetric] by simp
  next
    case 3
    then have "filter (\<lambda>x. f x < k) xs = []" "filter (\<lambda>x. f x = k) xs = []"
      using le by (auto simp: filter_empty_conv)
    moreover have "\<not> f a < k" "f a \<noteq> k" using 3 by simp_all
    ultimately show ?thesis using 3 IH [symmetric] by simp
  qed
qed

subsection \<open>A sorted copy\<close>

text \<open>
  C1. Let \<open>requests\<close> be a slice of the store, and let \<open>sort.Slice\<close> do on its elements
  what its documentation promises. Then \<open>sortRequests\<close> returns a slice \<open>duplicate\<close> of
  a new array whose elements are sorted ascending by \<open>Key\<close> and are a permutation of the
  elements of \<open>requests\<close>; \<open>requests\<close> still holds the same elements in the same order
  after the call, and so does every array that existed before the call.
\<close>

theorem sortRequests_sorted_permutation_nondestructive:
  assumes "valid_slice st requests"
    and "sorts srt (\<lambda>x y. Key x < Key y) (slice_elems st requests)"
  shows "\<exists>st' duplicate. sortRequests srt st requests = (st', duplicate) \<and>
           sorted_wrt (\<lambda>x y. Key x \<le> Key y) (slice_elems st' duplicate) \<and>
           mset (slice_elems st' duplicate) = mset (slice_elems st requests) \<and>
           slice_elems st' requests = slice_elems st requests \<and>
           take (length st) st' = st \<and> length st \<le> array duplicate"
proof -
  from assms obtain st' duplicate where r: "sortRequests srt st requests = (st', duplicate)"
    "slice_elems st' duplicate = srt (\<lambda>x y. Key x < Key y) (slice_elems st requests)"
    "take (length st) st' = st" "length st \<le> array duplicate"
    by (rule sortRequests_result)
  have "st' = st @ drop (length st) st'"
    using r(3) by (metis append_take_drop_id)
  then have "slice_elems st' requests = slice_elems st requests"
    using slice_elems_append_store [OF assms(1)] by metis
  moreover have "sorted_wrt (\<lambda>x y. Key x \<le> Key y) (slice_elems st' duplicate)"
    using assms(2) unfolding r(2) sorts_def by (intro Key_sorted) simp
  moreover have "mset (slice_elems st' duplicate) = mset (slice_elems st requests)"
    using assms(2) unfolding r(2) sorts_def by simp
  ultimately show ?thesis using r(1,3,4) by simp
qed

text \<open>
  Three requests in the middle of an array of five, sorted by the library's routine for
  short slices: the copy is sorted, the array is as it was.
\<close>

theorem sortRequests_sorted_permutation_nondestructive_witness:
  "valid_slice
     [[\<lparr>itemRequest.ID = ''u'', Key = ''ff'', Value = None\<rparr>,
       \<lparr>itemRequest.ID = ''x'', Key = ''b7'', Value = None\<rparr>,
       \<lparr>itemRequest.ID = ''y'', Key = ''0e'', Value = None\<rparr>,
       \<lparr>itemRequest.ID = ''z'', Key = ''5a'', Value = None\<rparr>,
       \<lparr>itemRequest.ID = ''v'', Key = ''00'', Value = None\<rparr>]]
     \<lparr>array = 0, off = 1, len = 3, cap = 4\<rparr> \<and>
   sorts shellInsertionSort (\<lambda>x y. Key x < Key y)
     (slice_elems
        [[\<lparr>itemRequest.ID = ''u'', Key = ''ff'', Value = None\<rparr>,
          \<lparr>itemRequest.ID = ''x'', Key = ''b7'', Value = None\<rparr>,
          \<lparr>itemRequest.ID = ''y'', Key = ''0e'', Value = None\<rparr>,
          \<lparr>itemRequest.ID = ''z'', Key = ''5a'', Value = None\<rparr>,
          \<lparr>itemRequest.ID = ''v'', Key = ''00'', Value = None\<rparr>]]
        \<lparr>array = 0, off = 1, len = 3, cap = 4\<rparr>) \<and>
   sortRequests shellInsertionSort
     [[\<lparr>itemRequest.ID = ''u'', Key = ''ff'', Value = None\<rparr>,
       \<lparr>itemRequest.ID = ''x'', Key = ''b7'', Value = None\<rparr>,
       \<lparr>itemRequest.ID = ''y'', Key = ''0e'', Value = None\<rparr>,
       \<lparr>itemRequest.ID = ''z'', Key = ''5a'', Value = None\<rparr>,
       \<lparr>itemRequest.ID = ''v'', Key = ''00'', Value = None\<rparr>]]
     \<lparr>array = 0, off = 1, len = 3, cap = 4\<rparr> =
   ([[\<lparr>itemRequest.ID = ''u'', Key = ''ff'', Value = None\<rparr>,
      \<lparr>itemRequest.ID = ''x'', Key = ''b7'', Value = None\<rparr>,
      \<lparr>itemRequest.ID = ''y'', Key = ''0e'', Value = None\<rparr>,
      \<lparr>itemRequest.ID = ''z'', Key = ''5a'', Value = None\<rparr>,
      \<lparr>itemRequest.ID = ''v'', Key = ''00'', Value = None\<rparr>],
     [],
     [\<lparr>itemRequest.ID = ''y'', Key = ''0e'', Value = None\<rparr>,
      \<lparr>itemRequest.ID = ''z'', Key = ''5a'', Value = None\<rparr>,
      \<lparr>itemRequest.ID = ''x'', Key = ''b7'', Value = None\<rparr>]],
    \<lparr>array = 2, off = 0, len = 3, cap = 3\<rparr>)"
proof -
  let ?st = "[[\<lparr>itemRequest.ID = ''u'', Key = ''ff'', Value = None\<rparr>,
       \<lparr>itemRequest.ID = ''x'', Key = ''b7'', Value = None\<rparr>,
       \<lparr>itemRequest.ID = ''y'', Key = ''0e'', Value = None\<rparr>,
       \<lparr>itemRequest.ID = ''z'', Key = ''5a'', Value = None\<rparr>,
       \<lparr>itemRequest.ID = ''v'', Key = ''00'', Value = None\<rparr>]]"
  let ?r = "\<lparr>array = 0, off = 1, len = 3, cap = 4\<rparr>"
  have v: "valid_slice ?st ?r" by (simp add: valid_slice_def)
  have s: "sorts shellInsertionSort (\<lambda>x y. Key x < Key y) (slice_elems ?st ?r)"
    by (simp add: sorts_def slice_elems_def shellInsertionSort_def insertionSort_func_def
        Swap_def insertionSort_outer.simps insertionSort_inner.simps shellPass.simps)
  show ?thesis
    using v s sortRequests_sorted_permutation_nondestructive [OF v s]
    by (simp add: sortRequests_def empty_literal_def append_slice_def sort_Slice_def
        slice_elems_def shellInsertionSort_def insertionSort_func_def Swap_def
        insertionSort_outer.simps insertionSort_inner.simps shellPass.simps)
qed

subsection \<open>The routine for short slices sorts\<close>

lemma Swap_adjacent:
  "Swap (Suc (length xs)) (length xs) (xs @ y # x # zs) = xs @ x # y # zs"
  by (simp add: Swap_def nth_append list_update_append)

lemma insertionSort_inner_insert_back:
  "insertionSort_inner lessf 0 (length r) (rev r @ x # zs) = rev (insert_back lessf x r) @ zs"
proof (induction r arbitrary: zs)
  case Nil
  show ?case by (subst insertionSort_inner.simps) simp
next
  case (Cons y r)
  show ?case
  proof (cases "lessf x y")
    case True
    have "insertionSort_inner lessf 0 (length (y # r)) (rev (y # r) @ x # zs) =
        insertionSort_inner lessf 0 (length r) (Swap (Suc (length r)) (length r) (rev r @ y # x # zs))"
      using True by (subst insertionSort_inner.simps) (simp add: nth_append)
    also have "\<dots> = insertionSort_inner lessf 0 (length r) (rev r @ x # y # zs)"
      using Swap_adjacent [of "rev r" y x zs] by simp
    also have "\<dots> = rev (insert_back lessf x r) @ y # zs" by (rule Cons.IH)
    finally show ?thesis using True by simp
  next
    case False
    then show ?thesis by (subst insertionSort_inner.simps) (simp add: nth_append)
  qed
qed

lemma mset_insert_back: "mset (insert_back lessf x r) = add_mset x (mset r)"
  by (induction r) simp_all

lemma set_insert_back: "set (insert_back lessf x r) = insert x (set r)"
  by (induction r) auto

lemma sorted_insert_back:
  fixes f :: "'a \<Rightarrow> 'k::linorder"
  shows "sorted_wrt (\<lambda>a b. f b \<le> f a) r \<Longrightarrow>
     sorted_wrt (\<lambda>a b. f b \<le> f a) (insert_back (\<lambda>a b. f a < f b) x r)"
  by (induction r) (auto simp: set_insert_back)

lemma insertionSort_outer_sorts:
  fixes f :: "'a \<Rightarrow> 'k::linorder"
  assumes "i \<le> length data" and "sorted_wrt (\<lambda>a b. f a \<le> f b) (take i data)"
  shows "sorted_wrt (\<lambda>a b. f a \<le> f b)
           (insertionSort_outer (\<lambda>a b. f a < f b) 0 (length data) i data) \<and>
         mset (insertionSort_outer (\<lambda>a b. f a < f b) 0 (length data) i data) = mset data"
  using assms
proof (induction "length data - i" arbitrary: i data)
  case 0
  then have "i = length data" by simp
  then show ?case using "0.prems"(2) by (subst (1 2) insertionSort_outer.simps) simp
next
  case (Suc n)
  then have i: "i < length data" by simp
  define r where "r = rev (take i data)"
  define x where "x = data ! i"
  define zs where "zs = drop (Suc i) data"
  have data: "data = rev r @ x # zs"
    unfolding r_def x_def zs_def using i by (simp add: id_take_nth_drop [symmetric])
  have lr: "length r = i" unfolding r_def using i by simp
  define data' where "data' = rev (insert_back (\<lambda>a b. f a < f b) x r) @ zs"
  have step: "insertionSort_inner (\<lambda>a b. f a < f b) 0 i data = data'"
    unfolding data'_def using insertionSort_inner_insert_back [of _ r x zs] lr data by simp
  have lins: "length (insert_back (\<lambda>a b. f a < f b) x r) = Suc (length r)"
    by (simp add: size_mset [symmetric] mset_insert_back del: size_mset)
  have "length data' = length (rev r @ x # zs)"
    unfolding data'_def by (simp add: lins)
  then have len: "length data' = length data" using data by simp
  have "mset data' = mset (rev r @ x # zs)"
    unfolding data'_def by (simp add: mset_insert_back)
  then have ms: "mset data' = mset data" using data by simp
  have "sorted_wrt (\<lambda>a b. f b \<le> f a) r"
    using Suc.prems(2) unfolding r_def by (simp add: sorted_wrt_rev)
  then have "sorted_wrt (\<lambda>a b. f b \<le> f a) (insert_back (\<lambda>a b. f a < f b) x r)"
    by (rule sorted_insert_back)
  then have "sorted_wrt (\<lambda>a b. f a \<le> f b) (rev (insert_back (\<lambda>a b. f a < f b) x r))"
    by (simp add: sorted_wrt_rev)
  moreover have "take (Suc i) data' = rev (insert_back (\<lambda>a b. f a < f b) x r)"
    unfolding data'_def using lr by (simp add: lins)
  ultimately have sorted': "sorted_wrt (\<lambda>a b. f a \<le> f b) (take (Suc i) data')" by simp
  have "sorted_wrt (\<lambda>a b. f a \<le> f b)
           (insertionSort_outer (\<lambda>a b. f a < f b) 0 (length data') (Suc i) data') \<and>
         mset (insertionSort_outer (\<lambda>a b. f a < f b) 0 (length data') (Suc i) data') = mset data'"
    using Suc.hyps(2) i sorted' len by (intro Suc.hyps(1)) simp_all
  moreover have "insertionSort_outer (\<lambda>a b. f a < f b) 0 (length data) i data =
      insertionSort_outer (\<lambda>a b. f a < f b) 0 (length data') (Suc i) data'"
    using i step len by (subst insertionSort_outer.simps) simp
  ultimately show ?case using ms by simp
qed

lemma mset_Swap: "i < length data \<Longrightarrow> j < length data \<Longrightarrow> mset (Swap i j data) = mset data"
  unfolding Swap_def by (simp add: mset_swap)

lemma length_Swap: "length (Swap i j data) = length data"
  by (simp add: Swap_def)

lemma shellPass_mset:
  "b \<le> length data \<Longrightarrow>
     mset (shellPass lessf b i data) = mset data \<and> length (shellPass lessf b i data) = length data"
proof (induction lessf b i data rule: shellPass.induct)
  case (1 lessf b i data)
  show ?case
  proof (cases "i < b")
    case True
    let ?d = "if lessf (data ! i) (data ! (i - 6)) then Swap i (i - 6) data else data"
    have d: "mset ?d = mset data" "length ?d = length data"
      using True "1.prems" by (simp_all add: mset_Swap length_Swap)
    have "mset (shellPass lessf b (i + 1) ?d) = mset ?d \<and>
          length (shellPass lessf b (i + 1) ?d) = length ?d"
      using True "1.prems" d(2) by (intro "1.IH") simp_all
    then show ?thesis using True d by (subst (1 2) shellPass.simps) simp
  next
    case False
    then show ?thesis by (subst (1 2) shellPass.simps) simp
  qed
qed

lemma shellInsertionSort_sorts:
  fixes f :: "'a \<Rightarrow> 'k::linorder"
  shows "sorts shellInsertionSort (\<lambda>a b. f a < f b) xs"
proof (cases "length xs > 1")
  case True
  define ys where "ys = shellPass (\<lambda>a b. f a < f b) (length xs) 6 xs"
  have ys: "mset ys = mset xs" "length ys = length xs"
    unfolding ys_def using shellPass_mset [of "length xs" xs] by simp_all
  have "sorted_wrt (\<lambda>a b. f a \<le> f b) (take 1 ys)"
    by (cases ys) simp_all
  then have "sorted_wrt (\<lambda>a b. f a \<le> f b)
           (insertionSort_outer (\<lambda>a b. f a < f b) 0 (length ys) 1 ys) \<and>
         mset (insertionSort_outer (\<lambda>a b. f a < f b) 0 (length ys) 1 ys) = mset ys"
    using True ys(2) by (intro insertionSort_outer_sorts) simp_all
  moreover have "shellInsertionSort (\<lambda>a b. f a < f b) xs =
      insertionSort_outer (\<lambda>a b. f a < f b) 0 (length ys) 1 ys"
    using True ys(2) by (simp add: shellInsertionSort_def insertionSort_func_def ys_def Let_def)
  ultimately show ?thesis using ys(1) by (simp add: sorts_def not_less)
next
  case False
  then have "shellInsertionSort (\<lambda>a b. f a < f b) xs = xs"
    by (simp add: shellInsertionSort_def)
  moreover have "sorted_wrt (\<lambda>a b. f a \<le> f b) xs"
  proof (cases xs)
    case Nil
    then show ?thesis by simp
  next
    case (Cons a ys)
    then have "ys = []" using False by simp
    then show ?thesis using Cons by simp
  qed
  ultimately show ?thesis by (simp add: sorts_def not_less)
qed

text \<open>
  With the routine the library applies to short slices no promise has to be assumed:
  \<open>sortRequests\<close> returns a key-sorted permutation in a new array and leaves every
  array of the store as it was. For a slice of at most 12 requests this routine is all
  of \<open>sort.Slice\<close> in Go up to 1.18.
\<close>

theorem sortRequests_short_slices:
  assumes "valid_slice st requests"
  shows "\<exists>st' duplicate. sortRequests shellInsertionSort st requests = (st', duplicate) \<and>
           sorted_wrt (\<lambda>x y. Key x \<le> Key y) (slice_elems st' duplicate) \<and>
           mset (slice_elems st' duplicate) = mset (slice_elems st requests) \<and>
           slice_elems st' requests = slice_elems st requests \<and>
           take (length st) st' = st"
proof -
  have s: "sorts shellInsertionSort (\<lambda>x y. Key x < Key y) (slice_elems st requests)"
    by (rule shellInsertionSort_sorts)
  from assms s obtain st' duplicate where
    r: "sortRequests shellInsertionSort st requests = (st', duplicate)"
    "slice_elems st' duplicate =
       shellInsertionSort (\<lambda>x y. Key x < Key y) (slice_elems st requests)"
    "take (length st) st' = st"
    by (rule sortRequests_result)
  have "st' = st @ drop (length st) st'"
    using r(3) by (metis append_take_drop_id)
  then have "slice_elems st' requests = slice_elems st requests"
    using slice_elems_append_store [OF assms] by metis
  moreover have "sorted_wrt (\<lambda>x y. Key x \<le> Key y) (slice_elems st' duplicate)"
    using s unfolding r(2) sorts_def by (intro Key_sorted) simp
  moreover have "mset (slice_elems st' duplicate) = mset (slice_elems st requests)"
    using s unfolding r(2) sorts_def by simp
  ultimately show ?thesis using r(1,3) by simp
qed

text \<open>Two requests out of order, in an array of their own.\<close>

theorem sortRequests_short_slices_witness:
  "valid_slice
     [[\<lparr>itemRequest.ID = ''m'', Key = ''9c'', Value = None\<rparr>,
       \<lparr>itemRequest.ID = ''n'', Key = ''41'', Value = None\<rparr>]]
     \<lparr>array = 0, off = 0, len = 2, cap = 2\<rparr> \<and>
   (\<exists>st' duplicate.
      sortRequests shellInsertionSort
        [[\<lparr>itemRequest.ID = ''m'', Key = ''9c'', Value = None\<rparr>,
          \<lparr>itemRequest.ID = ''n'', Key = ''41'', Value = None\<rparr>]]
        \<lparr>array = 0, off = 0, len = 2, cap = 2\<rparr> = (st', duplicate) \<and>
      sorted_wrt (\<lambda>x y. Key x \<le> Key y) (slice_elems st' duplicate))"
proof -
  have v: "valid_slice
     [[\<lparr>itemRequest.ID = ''m'', Key = ''9c'', Value = None\<rparr>,
       \<lparr>itemRequest.ID = ''n'', Key = ''41'', Value = None\<rparr>]]
     \<lparr>array = 0, off = 0, len = 2, cap = 2\<rparr>"
    by (simp add: valid_slice_def)
  show ?thesis using v sortRequests_short_slices [OF v] by blast
qed

subsection \<open>Equal keys\<close>

text \<open>
  C2, as the spec states it, asks that requests with equal keys keep the order of the
  input. \<open>sort.Slice\<close> does not promise that, and the library of Go up to 1.18 does not
  do it. A batch of seven items holds the id \<open>x\<close> twice, with the payloads \<open>first\<close> and
  \<open>second\<close>, and ends with the item of the smallest key, \<open>t\<close>. The pass with gap 6
  swaps \<open>t\<close> with the first \<open>x\<close>, and insertion sort then moves that \<open>x\<close> down until
  it stands behind the second one.
\<close>

theorem sortRequests_stable_counterexample:
  "(case sortRequests shellInsertionSort
      [[\<lparr>itemRequest.ID = ''x'', Key = ''5d'', Value = Some \<lparr>Item.ID = ''x'', Payload = ''first''\<rparr>\<rparr>,
        \<lparr>itemRequest.ID = ''x'', Key = ''5d'', Value = Some \<lparr>Item.ID = ''x'', Payload = ''second''\<rparr>\<rparr>,
        \<lparr>itemRequest.ID = ''p'', Key = ''7a'', Value = Some \<lparr>Item.ID = ''p'', Payload = ''p''\<rparr>\<rparr>,
        \<lparr>itemRequest.ID = ''q'', Key = ''8b'', Value = Some \<lparr>Item.ID = ''q'', Payload = ''q''\<rparr>\<rparr>,
        \<lparr>itemRequest.ID = ''r'', Key = ''9c'', Value = Some \<lparr>Item.ID = ''r'', Payload = ''r''\<rparr>\<rparr>,
        \<lparr>itemRequest.ID = ''s'', Key = ''ad'', Value = Some \<lparr>Item.ID = ''s'', Payload = ''s''\<rparr>\<rparr>,
        \<lparr>itemRequest.ID = ''t'', Key = ''1e'', Value = Some \<lparr>Item.ID = ''t'', Payload = ''t''\<rparr>\<rparr>]]
      \<lparr>array = 0, off = 0, len = 7, cap = 7\<rparr>
    of (st', duplicate) \<Rightarrow> slice_elems st' duplicate) =
     [\<lparr>itemRequest.ID = ''t'', Key = ''1e'', Value = Some \<lparr>Item.ID = ''t'', Payload = ''t''\<rparr>\<rparr>,
      \<lparr>itemRequest.ID = ''x'', Key = ''5d'', Value = Some \<lparr>Item.ID = ''x'', Payload = ''second''\<rparr>\<rparr>,
      \<lparr>itemRequest.ID = ''x'', Key = ''5d'', Value = Some \<lparr>Item.ID = ''x'', Payload = ''first''\<rparr>\<rparr>,
      \<lparr>itemRequest.ID = ''p'', Key = ''7a'', Value = Some \<lparr>Item.ID = ''p'', Payload = ''p''\<rparr>\<rparr>,
      \<lparr>itemRequest.ID = ''q'', Key = ''8b'', Value = Some \<lparr>Item.ID = ''q'', Payload = ''q''\<rparr>\<rparr>,
      \<lparr>itemRequest.ID = ''r'', Key = ''9c'', Value = Some \<lparr>Item.ID = ''r'', Payload = ''r''\<rparr>\<rparr>,
      \<lparr>itemRequest.ID = ''s'', Key = ''ad'', Value = Some \<lparr>Item.ID = ''s'', Payload = ''s''\<rparr>\<rparr>] \<and>
   \<not> stable_by_Key
     [\<lparr>itemRequest.ID = ''x'', Key = ''5d'', Value = Some \<lparr>Item.ID = ''x'', Payload = ''first''\<rparr>\<rparr>,
      \<lparr>itemRequest.ID = ''x'', Key = ''5d'', Value = Some \<lparr>Item.ID = ''x'', Payload = ''second''\<rparr>\<rparr>,
      \<lparr>itemRequest.ID = ''p'', Key = ''7a'', Value = Some \<lparr>Item.ID = ''p'', Payload = ''p''\<rparr>\<rparr>,
      \<lparr>itemRequest.ID = ''q'', Key = ''8b'', Value = Some \<lparr>Item.ID = ''q'', Payload = ''q''\<rparr>\<rparr>,
      \<lparr>itemRequest.ID = ''r'', Key = ''9c'', Value = Some \<lparr>Item.ID = ''r'', Payload = ''r''\<rparr>\<rparr>,
      \<lparr>itemRequest.ID = ''s'', Key = ''ad'', Value = Some \<lparr>Item.ID = ''s'', Payload = ''s''\<rparr>\<rparr>,
      \<lparr>itemRequest.ID = ''t'', Key = ''1e'', Value = Some \<lparr>Item.ID = ''t'', Payload = ''t''\<rparr>\<rparr>]
     [\<lparr>itemRequest.ID = ''t'', Key = ''1e'', Value = Some \<lparr>Item.ID = ''t'', Payload = ''t''\<rparr>\<rparr>,
      \<lparr>itemRequest.ID = ''x'', Key = ''5d'', Value = Some \<lparr>Item.ID = ''x'', Payload = ''second''\<rparr>\<rparr>,
      \<lparr>itemRequest.ID = ''x'', Key = ''5d'', Value = Some \<lparr>Item.ID = ''x'', Payload = ''first''\<rparr>\<rparr>,
      \<lparr>itemRequest.ID = ''p'', Key = ''7a'', Value = Some \<lparr>Item.ID = ''p'', Payload = ''p''\<rparr>\<rparr>,
      \<lparr>itemRequest.ID = ''q'', Key = ''8b'', Value = Some \<lparr>Item.ID = ''q'', Payload = ''q''\<rparr>\<rparr>,
      \<lparr>itemRequest.ID = ''r'', Key = ''9c'', Value = Some \<lparr>Item.ID = ''r'', Payload = ''r''\<rparr>\<rparr>,
      \<lparr>itemRequest.ID = ''s'', Key = ''ad'', Value = Some \<lparr>Item.ID = ''s'', Payload = ''s''\<rparr>\<rparr>]"
  by (simp add: sortRequests_def empty_literal_def append_slice_def sort_Slice_def
      slice_elems_def shellInsertionSort_def insertionSort_func_def Swap_def stable_by_Key_def
      insertionSort_outer.simps insertionSort_inner.simps shellPass.simps)

text \<open>
  C2, amended. Let \<open>requests\<close> be a slice of the store, and let \<open>sort.Slice\<close> do on its
  elements what its documentation promises. Then for every key \<open>k\<close> the result of
  \<open>sortRequests\<close> is made of the requests with a smaller key, then one run of the
  requests with the key \<open>k\<close>, then the requests with a greater key; the run holds exactly
  the requests of the input with the key \<open>k\<close>, each as often as the input does. In which
  order they stand inside the run is left open.
\<close>

theorem sortRequests_equal_keys_one_run:
  assumes "valid_slice st requests"
    and "sorts srt (\<lambda>x y. Key x < Key y) (slice_elems st requests)"
  shows "\<exists>st' duplicate before run after.
           sortRequests srt st requests = (st', duplicate) \<and>
           slice_elems st' duplicate = before @ run @ after \<and>
           (\<forall>r\<in>set before. Key r < k) \<and> (\<forall>r\<in>set run. Key r = k) \<and>
           (\<forall>r\<in>set after. k < Key r) \<and>
           mset run = filter_mset (\<lambda>r. Key r = k) (mset (slice_elems st requests))"
proof -
  from assms obtain st' duplicate where r: "sortRequests srt st requests = (st', duplicate)"
    "slice_elems st' duplicate = srt (\<lambda>x y. Key x < Key y) (slice_elems st requests)"
    by (rule sortRequests_result)
  define out where "out = slice_elems st' duplicate"
  have sorted: "sorted_wrt (\<lambda>x y. Key x \<le> Key y) out"
    using assms(2) unfolding out_def r(2) sorts_def by (intro Key_sorted) simp
  have perm: "mset out = mset (slice_elems st requests)"
    using assms(2) unfolding out_def r(2) sorts_def by simp
  have split: "out = filter (\<lambda>r. Key r < k) out @ filter (\<lambda>r. Key r = k) out @
                      filter (\<lambda>r. k < Key r) out"
    using sorted by (rule sorted_by_key_runs)
  have "mset (filter (\<lambda>r. Key r = k) out) =
          filter_mset (\<lambda>r. Key r = k) (mset (slice_elems st requests))"
    using perm by (metis mset_filter)
  then have "sortRequests srt st requests = (st', duplicate) \<and>
      slice_elems st' duplicate = filter (\<lambda>r. Key r < k) out @ filter (\<lambda>r. Key r = k) out @
                      filter (\<lambda>r. k < Key r) out \<and>
      (\<forall>r\<in>set (filter (\<lambda>r. Key r < k) out). Key r < k) \<and>
      (\<forall>r\<in>set (filter (\<lambda>r. Key r = k) out). Key r = k) \<and>
      (\<forall>r\<in>set (filter (\<lambda>r. k < Key r) out). k < Key r) \<and>
      mset (filter (\<lambda>r. Key r = k) out) =
        filter_mset (\<lambda>r. Key r = k) (mset (slice_elems st requests))"
    using split r(1) unfolding out_def [symmetric] by simp
  then show ?thesis by blast
qed

text \<open>Four requests, two of them with the key \<open>2\<close>.\<close>

theorem sortRequests_equal_keys_one_run_witness:
  "valid_slice
     [[\<lparr>itemRequest.ID = ''p'', Key = ''2'', Value = None\<rparr>,
       \<lparr>itemRequest.ID = ''q'', Key = ''3'', Value = None\<rparr>,
       \<lparr>itemRequest.ID = ''r'', Key = ''2'', Value = None\<rparr>,
       \<lparr>itemRequest.ID = ''s'', Key = ''1'', Value = None\<rparr>]]
     \<lparr>array = 0, off = 0, len = 4, cap = 4\<rparr> \<and>
   sorts shellInsertionSort (\<lambda>x y. Key x < Key y)
     (slice_elems
        [[\<lparr>itemRequest.ID = ''p'', Key = ''2'', Value = None\<rparr>,
          \<lparr>itemRequest.ID = ''q'', Key = ''3'', Value = None\<rparr>,
          \<lparr>itemRequest.ID = ''r'', Key = ''2'', Value = None\<rparr>,
          \<lparr>itemRequest.ID = ''s'', Key = ''1'', Value = None\<rparr>]]
        \<lparr>array = 0, off = 0, len = 4, cap = 4\<rparr>) \<and>
   (\<exists>st' duplicate before run after.
      sortRequests shellInsertionSort
        [[\<lparr>itemRequest.ID = ''p'', Key = ''2'', Value = None\<rparr>,
          \<lparr>itemRequest.ID = ''q'', Key = ''3'', Value = None\<rparr>,
          \<lparr>itemRequest.ID = ''r'', Key = ''2'', Value = None\<rparr>,
          \<lparr>itemRequest.ID = ''s'', Key = ''1'', Value = None\<rparr>]]
        \<lparr>array = 0, off = 0, len = 4, cap = 4\<rparr> = (st', duplicate) \<and>
      slice_elems st' duplicate = before @ run @ after \<and>
      mset run =
        {#\<lparr>itemRequest.ID = ''p'', Key = ''2'', Value = None\<rparr>,
          \<lparr>itemRequest.ID = ''r'', Key = ''2'', Value = None\<rparr>#})"
proof -
  let ?st = "[[\<lparr>itemRequest.ID = ''p'', Key = ''2'', Value = None\<rparr>,
       \<lparr>itemRequest.ID = ''q'', Key = ''3'', Value = None\<rparr>,
       \<lparr>itemRequest.ID = ''r'', Key = ''2'', Value = None\<rparr>,
       \<lparr>itemRequest.ID = ''s'', Key = ''1'', Value = None\<rparr>]]"
  let ?r = "\<lparr>array = 0, off = 0, len = 4, cap = 4\<rparr>"
  have v: "valid_slice ?st ?r" by (simp add: valid_slice_def)
  have s: "sorts shellInsertionSort (\<lambda>x y. Key x < Key y) (slice_elems ?st ?r)"
    by (simp add: sorts_def slice_elems_def shellInsertionSort_def insertionSort_func_def
        Swap_def insertionSort_outer.simps insertionSort_inner.simps shellPass.simps)
  have e: "filter_mset (\<lambda>r. Key r = ''2'') (mset (slice_elems ?st ?r)) =
      {#\<lparr>itemRequest.ID = ''p'', Key = ''2'', Value = None\<rparr>,
        \<lparr>itemRequest.ID = ''r'', Key = ''2'', Value = None\<rparr>#}"
    by (simp add: slice_elems_def)
  from sortRequests_equal_keys_one_run [OF v s, of "''2''"]
  obtain st' duplicate before run after where
    "sortRequests shellInsertionSort ?st ?r = (st', duplicate)"
    "slice_elems st' duplicate = before @ run @ after"
    "mset run = filter_mset (\<lambda>r. Key r = ''2'') (mset (slice_elems ?st ?r))"
    by blast
  then show ?thesis using v s unfolding e by blast
qed

section \<open>getAllBaseBucketKeys\<close>

subsection \<open>The loop and the format\<close>

lemma getAllBaseBucketKeys_loop_map:
  "i \<le> n \<Longrightarrow> getAllBaseBucketKeys_loop w n i ret = ret @ map (Sprintf_0x w) [i..<n]"
proof (induction w n i ret rule: getAllBaseBucketKeys_loop.induct)
  case (1 w n i ret)
  show ?case
  proof (cases "i < n")
    case True
    then have "getAllBaseBucketKeys_loop w n i ret =
        getAllBaseBucketKeys_loop w n (i + 1) (ret @ [Sprintf_0x w i])"
      by (subst getAllBaseBucketKeys_loop.simps) simp
    also have "\<dots> = (ret @ [Sprintf_0x w i]) @ map (Sprintf_0x w) [i + 1..<n]"
      using True by (intro "1.IH") simp_all
    also have "\<dots> = ret @ map (Sprintf_0x w) [i..<n]"
      using True by (simp add: upt_conv_Cons)
    finally show ?thesis .
  next
    case False
    with "1.prems" have "i = n" by simp
    then show ?thesis by (subst getAllBaseBucketKeys_loop.simps) simp
  qed
qed

lemma length_hexpad: "length (hexpad w u) = w"
  by (induction w arbitrary: u) simp_all

lemma hexpad_zero: "hexpad w 0 = replicate w CHR ''0''"
proof (induction w)
  case 0
  show ?case by simp
next
  case (Suc w)
  have "ldigits ! 0 = CHR ''0''" by (simp add: ldigits_def)
  then show ?case using Suc by (simp add: replicate_append_same)
qed

lemma Sprintf_0x_small:
  "u < 16 \<Longrightarrow> Sprintf_0x (Suc w) u = replicate w CHR ''0'' @ [ldigits ! u]"
  by (subst Sprintf_0x_def, subst fmt_hex.simps) simp

lemma Sprintf_0x_large:
  "16 \<le> u \<Longrightarrow> Sprintf_0x (Suc w) u = Sprintf_0x w (u div 16) @ [ldigits ! (u mod 16)]"
  by (subst (1) Sprintf_0x_def, subst fmt_hex.simps) (simp add: Sprintf_0x_def Let_def)

lemma div_16_less: "u < 16 ^ Suc w \<Longrightarrow> u div 16 < (16::nat) ^ w"
  by (simp add: less_mult_imp_div_less mult.commute)

lemma Sprintf_0x_hexpad: "0 < w \<Longrightarrow> u < 16 ^ w \<Longrightarrow> Sprintf_0x w u = hexpad w u"
proof (induction w arbitrary: u)
  case 0
  then show ?case by simp
next
  case (Suc w)
  show ?case
  proof (cases "u < 16")
    case True
    then show ?thesis by (simp add: Sprintf_0x_small hexpad_zero)
  next
    case False
    then have w: "0 < w" using Suc.prems(2) by (cases w) simp_all
    have "u div 16 < 16 ^ w" using Suc.prems(2) by (rule div_16_less)
    then have "Sprintf_0x w (u div 16) = hexpad w (u div 16)" using w by (rule Suc.IH [rotated])
    then show ?thesis using False by (simp add: Sprintf_0x_large)
  qed
qed

subsection \<open>The sixteen digits\<close>

lemma hextable_take: "hextable = take 16 ldigits"
  by (simp add: hextable_def ldigits_def)

lemma ldigits_hextable: "d < 16 \<Longrightarrow> ldigits ! d = hextable ! d"
  by (simp add: hextable_take)

lemma length_hextable: "length hextable = 16"
  by (simp add: hextable_def)

lemma distinct_hextable: "distinct hextable"
  by (simp add: hextable_def)

lemma sorted_hextable: "sorted_wrt (<) hextable"
  by (simp add: hextable_def)

lemma takeWhile_neq_nth:
  "distinct xs \<Longrightarrow> i < length xs \<Longrightarrow> takeWhile (\<lambda>x. x \<noteq> xs ! i) xs = take i xs"
proof (induction xs arbitrary: i)
  case Nil
  then show ?case by simp
next
  case (Cons a xs)
  then show ?case by (cases i) auto
qed

lemma hex_digit_value_ldigits: "d < 16 \<Longrightarrow> hex_digit_value (ldigits ! d) = d"
  unfolding hex_digit_value_def ldigits_hextable
  using takeWhile_neq_nth [OF distinct_hextable, of d] by (simp add: length_hextable)

lemma ldigits_less: "m < n \<Longrightarrow> n < 16 \<Longrightarrow> ldigits ! m < ldigits ! n"
  using sorted_hextable by (simp add: ldigits_hextable sorted_wrt_iff_nth_less length_hextable)

subsection \<open>Fixed-width numerals: their value, their digits, their order\<close>

lemma hex_value_snoc: "hex_value (ds @ [c]) = 16 * hex_value ds + hex_digit_value c"
  by (simp add: hex_value_def)

lemma hex_value_hexpad: "u < 16 ^ w \<Longrightarrow> hex_value (hexpad w u) = u"
proof (induction w arbitrary: u)
  case 0
  then show ?case by (simp add: hex_value_def)
next
  case (Suc w)
  have "u div 16 < 16 ^ w" using Suc.prems by (rule div_16_less)
  then have "hex_value (hexpad w (u div 16)) = u div 16" by (rule Suc.IH)
  then show ?case by (simp add: hex_value_snoc hex_digit_value_ldigits)
qed

lemma set_hexpad: "set (hexpad w u) \<subseteq> set hextable"
proof (induction w arbitrary: u)
  case 0
  show ?case by simp
next
  case (Suc w)
  have "ldigits ! (u mod 16) \<in> set hextable"
    by (simp add: ldigits_hextable length_hextable)
  then show ?case using Suc by simp
qed

lemma snoc_less:
  fixes xs ys :: string
  shows "length xs = length ys \<Longrightarrow> xs < ys \<or> xs = ys \<and> a < b \<Longrightarrow> xs @ [a] < ys @ [b]"
  unfolding list_less_def
  by (auto intro: lexord_sufI lexord_append_leftI)

lemma hexpad_less: "u < v \<Longrightarrow> v < 16 ^ w \<Longrightarrow> hexpad w u < hexpad w v"
proof (induction w arbitrary: u v)
  case 0
  then show ?case by simp
next
  case (Suc w)
  have v: "v div 16 < 16 ^ w" using Suc.prems(2) by (rule div_16_less)
  have le: "u div 16 \<le> v div 16" using Suc.prems(1) by (simp add: div_le_mono)
  have "hexpad w (u div 16) < hexpad w (v div 16) \<or>
        hexpad w (u div 16) = hexpad w (v div 16) \<and> ldigits ! (u mod 16) < ldigits ! (v mod 16)"
  proof (cases "u div 16 < v div 16")
    case True
    then show ?thesis using Suc.IH [OF True v] by simp
  next
    case False
    with le have eq: "u div 16 = v div 16" by simp
    then have "u mod 16 < v mod 16"
      using Suc.prems(1) by (metis div_mult_mod_eq nat_add_left_cancel_less)
    then show ?thesis using eq by (simp add: ldigits_less)
  qed
  then show ?case by (simp add: snoc_less length_hexpad)
qed

lemma pow2_to_int_nat:
  "0 \<le> b \<Longrightarrow> b \<le> 62 \<Longrightarrow> 0 \<le> pow2_to_int b \<and> nat (pow2_to_int b) = 2 ^ nat b"
  by (simp add: pow2_to_int_def nat_power_eq)

lemma makeslice_grants:
  assumes "0 \<le> b" "b \<le> 44"
  shows "\<not> makeslice_panics (pow2_to_int b)"
proof -
  have "(2::nat) ^ nat b \<le> 2 ^ 44" using assms by (intro power_increasing) simp_all
  then have "16 * (2::nat) ^ nat b \<le> 16 * 2 ^ 44" by (rule mult_le_mono2)
  moreover have "0 \<le> pow2_to_int b" "nat (pow2_to_int b) = 2 ^ nat b"
    using assms pow2_to_int_nat [of b] by simp_all
  ultimately show ?thesis by (simp add: makeslice_panics_def maxAlloc_def nat_power_eq)
qed

lemma makeslice_refuses:
  assumes "44 < b"
  shows "makeslice_panics (pow2_to_int b)"
proof (cases "b \<le> 62")
  case True
  have "(2::nat) ^ 45 \<le> 2 ^ nat b" using assms by (intro power_increasing) simp_all
  then have "16 * (2::nat) ^ 45 \<le> 16 * 2 ^ nat b" by (rule mult_le_mono2)
  moreover have "nat (pow2_to_int b) = 2 ^ nat b"
    using assms True pow2_to_int_nat [of b] by simp
  ultimately show ?thesis by (simp add: makeslice_panics_def maxAlloc_def nat_power_eq)
next
  case False
  then show ?thesis by (simp add: makeslice_panics_def pow2_to_int_def)
qed

lemma getAllBaseBucketKeys_hexpad:
  assumes "0 < b" "b mod 4 = 0" "b \<le> 44" "2 ^ nat b \<le> room"
  shows "getAllBaseBucketKeys room \<lparr>BaseBucketBits = b\<rparr> =
           Inr (map (hexpad (nat (b div 4))) [0..<2 ^ nat b])"
proof -
  define w where "w = nat (b div 4)"
  have b: "b = 4 * int w" using assms(1,2) unfolding w_def by auto
  have w: "0 < w" using assms(1) b by simp
  have pow: "(2::nat) ^ nat b = 16 ^ w"
    unfolding b by (simp add: nat_mult_distrib power_mult)
  have p: "nat (pow2_to_int b) = 2 ^ nat b"
    using assms(1,3) pow2_to_int_nat [of b] by simp
  have "\<not> makeslice_panics (pow2_to_int b)"
    using assms(1,3) by (intro makeslice_grants) simp_all
  moreover have "go_div b 4 = int w" using assms(1) unfolding b by (simp add: go_div_def)
  ultimately have "getAllBaseBucketKeys room \<lparr>BaseBucketBits = b\<rparr> =
      Inr (map (Sprintf_0x w) [0..<2 ^ nat b])"
    using p assms(4)
    by (simp add: getAllBaseBucketKeys_def Let_def getAllBaseBucketKeys_loop_map nat_power_eq)
  also have "map (Sprintf_0x w) [0..<2 ^ nat b] = map (hexpad w) [0..<2 ^ nat b]"
    unfolding pow using w by (simp add: Sprintf_0x_hexpad)
  finally show ?thesis unfolding w_def .
qed

subsection \<open>The enumeration\<close>

text \<open>
  C3, as the spec states it, speaks of every positive multiple of 4. With
  \<open>BaseBucketBits = 64\<close> the float64 \<open>2^64\<close> is outside \<open>int\<close>, the conversion gives
  the smallest \<open>int\<close>, and \<open>make\<close> panics on the negative capacity. With
  \<open>BaseBucketBits = 60\<close> the capacity \<open>2^60\<close> is an \<open>int\<close>, but its \<open>2^64\<close> bytes
  are beyond \<open>maxAlloc\<close>, and \<open>make\<close> panics again. On no machine, whatever its
  memory, is a sequence returned.
\<close>

theorem getAllBaseBucketKeys_counterexample:
  "\<forall>room. getAllBaseBucketKeys room \<lparr>BaseBucketBits = 64\<rparr> = Inl MakesliceCapOutOfRange \<and>
          getAllBaseBucketKeys room \<lparr>BaseBucketBits = 60\<rparr> = Inl MakesliceCapOutOfRange"
  by (simp add: getAllBaseBucketKeys_def makeslice_refuses)

text \<open>
  The same holds from 45 bits on, and up to 44 bits a machine without the memory for the
  keys ends the call with the fatal error.
\<close>

theorem getAllBaseBucketKeys_fails:
  "(44 < BaseBucketBits s \<longrightarrow> getAllBaseBucketKeys room s = Inl MakesliceCapOutOfRange) \<and>
   (0 \<le> BaseBucketBits s \<and> BaseBucketBits s \<le> 44 \<and> room < 2 ^ nat (BaseBucketBits s) \<longrightarrow>
      getAllBaseBucketKeys room s = Inl FatalOutOfMemory)"
proof (intro conjI impI)
  assume "44 < BaseBucketBits s"
  then show "getAllBaseBucketKeys room s = Inl MakesliceCapOutOfRange"
    by (simp add: getAllBaseBucketKeys_def makeslice_refuses)
next
  assume a: "0 \<le> BaseBucketBits s \<and> BaseBucketBits s \<le> 44 \<and> room < 2 ^ nat (BaseBucketBits s)"
  then have "nat (pow2_to_int (BaseBucketBits s)) = 2 ^ nat (BaseBucketBits s)"
    using pow2_to_int_nat [of "BaseBucketBits s"] by simp
  moreover have "\<not> makeslice_panics (pow2_to_int (BaseBucketBits s))"
    using a by (intro makeslice_grants) simp_all
  ultimately show "getAllBaseBucketKeys room s = Inl FatalOutOfMemory"
    using a by (simp add: getAllBaseBucketKeys_def nat_power_eq)
qed

text \<open>
  C3, amended. For every configuration where \<open>BaseBucketBits\<close> is a positive multiple of
  4 and at most 44, so that the headers of \<open>2^BaseBucketBits\<close> strings stay within
  \<open>maxAlloc\<close>, and on a machine that has the memory for \<open>2^BaseBucketBits\<close> keys,
  \<open>getAllBaseBucketKeys\<close> returns a sequence of exactly \<open>2^BaseBucketBits\<close> entries, all
  distinct; the entry at position \<open>i\<close> has \<open>BaseBucketBits / 4\<close> characters, all of
  them hexadecimal digits in lower case, and denotes the number \<open>i\<close> (so it is \<open>i\<close>
  filled with zeros to that width), and the entries ascend in the order of strings as
  well.
\<close>

theorem getAllBaseBucketKeys_enumerates:
  assumes "0 < BaseBucketBits s" and "BaseBucketBits s mod 4 = 0" and "BaseBucketBits s \<le> 44"
    and "2 ^ nat (BaseBucketBits s) \<le> room"
  shows "\<exists>ret. getAllBaseBucketKeys room s = Inr ret \<and>
           length ret = 2 ^ nat (BaseBucketBits s) \<and>
           distinct ret \<and>
           (\<forall>i<length ret. length (ret ! i) = nat (BaseBucketBits s div 4) \<and>
                           set (ret ! i) \<subseteq> set hextable \<and>
                           hex_value (ret ! i) = i) \<and>
           sorted_wrt (<) ret"
proof -
  define b where "b = BaseBucketBits s"
  define w where "w = nat (b div 4)"
  define ret where "ret = map (hexpad w) [0..<2 ^ nat b]"
  have s: "s = \<lparr>BaseBucketBits = b\<rparr>" unfolding b_def by simp
  have bw: "b = 4 * int w" using assms(1,2) unfolding w_def b_def by auto
  have pow: "(2::nat) ^ nat b = 16 ^ w"
    unfolding bw by (simp add: nat_mult_distrib power_mult)
  have run: "getAllBaseBucketKeys room s = Inr ret"
    unfolding ret_def w_def using assms unfolding b_def [symmetric]
    by (subst s) (rule getAllBaseBucketKeys_hexpad)
  have len: "length ret = 2 ^ nat b" by (simp add: ret_def)
  have nth: "ret ! i = hexpad w i" if "i < 2 ^ nat b" for i
    using that by (simp add: ret_def)
  have inj: "inj_on (hexpad w) (set [0..<2 ^ nat b])"
  proof (rule inj_onI)
    fix x y assume "x \<in> set [0..<2 ^ nat b]" "y \<in> set [0..<2 ^ nat b]" "hexpad w x = hexpad w y"
    then have x: "x < 16 ^ w" and y: "y < 16 ^ w" and eq: "hexpad w x = hexpad w y"
      unfolding pow by simp_all
    have "x = hex_value (hexpad w x)" using x by (simp add: hex_value_hexpad)
    also have "\<dots> = hex_value (hexpad w y)" unfolding eq ..
    also have "\<dots> = y" using y by (simp add: hex_value_hexpad)
    finally show "x = y" .
  qed
  have dist: "distinct ret" unfolding ret_def using inj by (simp add: distinct_map)
  have entries: "length (ret ! i) = w \<and> set (ret ! i) \<subseteq> set hextable \<and>
      hex_value (ret ! i) = i" if "i < length ret" for i
  proof -
    have i: "i < 16 ^ w" using that len pow by simp
    show ?thesis
      using i pow nth [of i] by (simp add: length_hexpad set_hexpad hex_value_hexpad)
  qed
  have "sorted_wrt (\<lambda>i j. hexpad w i < hexpad w j) [0..<2 ^ nat b]"
  proof (rule sorted_wrt_mono_rel [of _ "(<)"])
    fix i j assume "i \<in> set [0..<2 ^ nat b]" "j \<in> set [0..<2 ^ nat b]" "i < j"
    then show "hexpad w i < hexpad w j" unfolding pow by (simp add: hexpad_less)
  qed simp
  then have srt: "sorted_wrt (<) ret" unfolding ret_def by (simp add: sorted_wrt_map)
  show ?thesis
    using run len dist entries srt unfolding b_def [symmetric] w_def [symmetric]
    by (intro exI [of _ ret]) simp
qed


text \<open>
  With 4 bits, on a machine with room for a thousand keys, there are the sixteen buckets
  \<open>0\<close> to \<open>f\<close>, one for each digit of \<open>hextable\<close>.
\<close>

theorem getAllBaseBucketKeys_enumerates_witness:
  "0 < BaseBucketBits \<lparr>BaseBucketBits = 4\<rparr> \<and> BaseBucketBits \<lparr>BaseBucketBits = 4\<rparr> mod 4 = 0 \<and>
   BaseBucketBits \<lparr>BaseBucketBits = 4\<rparr> \<le> 44 \<and>
   2 ^ nat (BaseBucketBits \<lparr>BaseBucketBits = 4\<rparr>) \<le> (1000 :: nat) \<and>
   getAllBaseBucketKeys 1000 \<lparr>BaseBucketBits = 4\<rparr> =
     Inr (map (\<lambda>i. [hextable ! i]) [0..<16]) \<and>
   (\<exists>ret. getAllBaseBucketKeys 1000 \<lparr>BaseBucketBits = 4\<rparr> = Inr ret \<and> length ret = 16 \<and>
      distinct ret \<and> sorted_wrt (<) ret)"
proof -
  have e: "getAllBaseBucketKeys 1000 \<lparr>BaseBucketBits = 4\<rparr> =
     Inr (map (\<lambda>i. [hextable ! i]) [0..<16])"
    by (simp add: getAllBaseBucketKeys_def pow2_to_int_def makeslice_panics_def maxAlloc_def
        go_div_def getAllBaseBucketKeys_loop.simps Sprintf_0x_def fmt_hex.simps ldigits_def
        hextable_def upt_rec)
  from getAllBaseBucketKeys_enumerates [of "\<lparr>BaseBucketBits = 4\<rparr>" 1000]
  obtain ret where "getAllBaseBucketKeys 1000 \<lparr>BaseBucketBits = 4\<rparr> = Inr ret"
    "length ret = 2 ^ nat 4" "distinct ret" "sorted_wrt (<) ret"
    by auto
  then show ?thesis using e by simp
qed

text \<open>
  With 8 bits the result is the 256 strings \<open>00\<close> to \<open>ff\<close> in ascending order: entry
  \<open>i\<close> is the digit of \<open>i div 16\<close> followed by the digit of \<open>i mod 16\<close>.
\<close>

theorem getAllBaseBucketKeys_8_bits:
  "getAllBaseBucketKeys 1000 \<lparr>BaseBucketBits = 8\<rparr> =
     Inr (map (\<lambda>i. [hextable ! (i div 16), hextable ! (i mod 16)]) [0..<256])"
proof -
  have "getAllBaseBucketKeys 1000 \<lparr>BaseBucketBits = 8\<rparr> =
      Inr (map (hexpad (nat (8 div 4))) [0..<2 ^ nat 8])"
    by (rule getAllBaseBucketKeys_hexpad) simp_all
  moreover have "hexpad (nat (8 div 4)) i = [hextable ! (i div 16), hextable ! (i mod 16)]"
    if "i < 256" for i
  proof -
    have "i div 16 < 16" using that by simp
    then show ?thesis by (simp add: numeral_2_eq_2 ldigits_hextable)
  qed
  ultimately show ?thesis by simp
qed

end
